theory Spec2Isabelle
  imports Main "HOL-Library.Char_ord" "HOL-Library.List_Lexorder"
begin

section \<open>Python values and their textual form\<close>

text \<open>
  The decorators of \<^verbatim>\<open>06_decorator\<close> and \<^verbatim>\<open>04_functions\<close> wrap arbitrary Python
  callables. The values that flow through them are modelled by the datatype below:
  \<^verbatim>\<open>None\<close>, integers, strings, tuples, lists, and instances of classes that define
  neither \<^verbatim>\<open>__eq__\<close> nor \<^verbatim>\<open>__hash__\<close>. Such an instance \<open>PObj i t\<close> is equal to itself
  only and hashable; \<open>i\<close> numbers the object and \<open>t\<close> is the text that \<^verbatim>\<open>repr\<close> and
  \<^verbatim>\<open>str\<close> give for it (the result of the \<^verbatim>\<open>__repr__\<close> of its class, or the default text
  with the address), which two objects can have in common. On these values Python's
  \<^verbatim>\<open>==\<close> is structural equality (booleans and floats, where \<^verbatim>\<open>1 == True == 1.0\<close>, are
  left out).
  A string is the list of its code points, each below 256; the order of \<^typ>\<open>char\<close>
  (by code) and the lexicographic order of lists are Python's order of such strings.
  Interpreter limits (recursion depth, the digit limit of integer conversion) and console
  output (\<^verbatim>\<open>print\<close>) are not modelled.
\<close>

datatype pyval =
  PNone | PInt int | PStr string | PTuple "pyval list" | PList "pyval list" | PObj nat string

datatype pyexn = TypeError | Exception string

type_synonym kwargs = "(string \<times> pyval) list"

definition digit_char :: "nat \<Rightarrow> char" where
  "digit_char d = ''0123456789abcdef'' ! d"

fun digits :: "nat \<Rightarrow> string" where
  "digits n = (if n < 10 then [digit_char n] else digits (n div 10) @ [digit_char (n mod 10)])"

declare digits.simps [simp del]

definition str_int :: "int \<Rightarrow> string" where
  "str_int i = (if i < 0 then CHR ''-'' # digits (nat (- i)) else digits (nat i))"

definition printable :: "char \<Rightarrow> bool" where
  "printable c = (let n = (of_char c :: nat) in (32 \<le> n \<and> n < 127) \<or> (161 \<le> n \<and> n \<noteq> 173))"

definition hex2 :: "char \<Rightarrow> string" where
  "hex2 c = [digit_char ((of_char c :: nat) div 16), digit_char ((of_char c :: nat) mod 16)]"

definition escape_char :: "char \<Rightarrow> char \<Rightarrow> string" where
  "escape_char quote c =
     (if c = quote \<or> c = CHR 0x5C then [CHR 0x5C, c]
      else if c = CHR 0x09 then [CHR 0x5C, CHR ''t'']
      else if c = CHR 0x0A then [CHR 0x5C, CHR ''n'']
      else if c = CHR 0x0D then [CHR 0x5C, CHR ''r'']
      else if printable c then [c]
      else [CHR 0x5C, CHR ''x''] @ hex2 c)"

definition str_repr :: "string \<Rightarrow> string" where
  "str_repr s =
     (let quote = (if CHR 0x27 \<in> set s \<and> CHR 0x22 \<notin> set s then CHR 0x22 else CHR 0x27)
      in quote # concat (map (escape_char quote) s) @ [quote])"

fun comma_join :: "string list \<Rightarrow> string" where
  "comma_join [] = []"
| "comma_join [x] = x"
| "comma_join (x # y # ys) = x @ '', '' @ comma_join (y # ys)"

fun py_repr :: "pyval \<Rightarrow> string" where
  "py_repr PNone = ''None''"
| "py_repr (PInt i) = str_int i"
| "py_repr (PStr s) = str_repr s"
| "py_repr (PTuple xs) =
     ''('' @ comma_join (map py_repr xs) @ (if length xs = 1 then '','' else []) @ '')''"
| "py_repr (PList xs) = ''['' @ comma_join (map py_repr xs) @ '']''"
| "py_repr (PObj i t) = t"

fun py_str :: "pyval \<Rightarrow> string" where
  "py_str (PStr s) = s"
| "py_str v = py_repr v"

fun py_hashable :: "pyval \<Rightarrow> bool" where
  "py_hashable PNone = True"
| "py_hashable (PInt i) = True"
| "py_hashable (PStr s) = True"
| "py_hashable (PTuple xs) = (\<forall>x \<in> set xs. py_hashable x)"
| "py_hashable (PList xs) = False"
| "py_hashable (PObj i t) = True"

text \<open>
  \<^verbatim>\<open>sorted(kwargs.items())\<close>: the items of a dictionary are pairs with pairwise different
  names, so comparing two items is decided by their names.
\<close>

definition sorted_items :: "kwargs \<Rightarrow> pyval" where
  "sorted_items kwargs = PList (map (\<lambda>(k, v). PTuple [PStr k, v]) (sort_key fst kwargs))"

section \<open>The computation that is wrapped\<close>

text \<open>
  A computation receives positional and named arguments and a world \<open>'w\<close> (whatever
  state it reads or changes), and either raises or returns. It does not touch the cache
  of its wrapper. \<open>counting\<close> instruments a computation with the number of its invocations.
\<close>

type_synonym ('w, 'r) computation = "pyval list \<Rightarrow> kwargs \<Rightarrow> 'w \<Rightarrow> (pyexn + 'r) \<times> 'w"

definition counting :: "('w, 'r) computation \<Rightarrow> ('w \<times> nat, 'r) computation" where
  "counting func args kwargs wn =
     (case wn of (w, n) \<Rightarrow> (case func args kwargs w of (res, w') \<Rightarrow> (res, (w', Suc n))))"

section \<open>decorator.py: cache\<close>

text \<open>
  \<^verbatim>\<open>
  def cache(func):
      cache_value = {}

      def wrapper(*args, **kwargs):
          key = str(args) + str(sorted(kwargs.items()))
          if key in cache_value:
              return cache_value[key]
          result = func(*args, **kwargs)
          cache_value[key] = result
          return result

      wrapper.cache = cache_value
      return wrapper
  \<close>
  The state of the closure is the dictionary \<^verbatim>\<open>cache_value\<close>, empty when \<^verbatim>\<open>cache\<close>
  returns; the wrapper is a function of that dictionary and the world of the computation.
  An exception of \<^verbatim>\<open>func\<close> leaves the wrapper before the store.
\<close>

definition cache_key :: "pyval list \<Rightarrow> kwargs \<Rightarrow> string" where
  "cache_key args kwargs = py_str (PTuple args) @ py_str (sorted_items kwargs)"

definition cache_wrapper ::
  "('w, 'r) computation \<Rightarrow> pyval list \<Rightarrow> kwargs \<Rightarrow> (string \<rightharpoonup> 'r) \<times> 'w
     \<Rightarrow> (pyexn + 'r) \<times> ((string \<rightharpoonup> 'r) \<times> 'w)" where
  "cache_wrapper func args kwargs st =
     (case st of (cache_value, w) \<Rightarrow>
        let key = cache_key args kwargs in
        (case cache_value key of
           Some r \<Rightarrow> (Inr r, (cache_value, w))
         | None \<Rightarrow>
             (case func args kwargs w of
                (Inl e, w') \<Rightarrow> (Inl e, (cache_value, w'))
              | (Inr result, w') \<Rightarrow> (Inr result, (cache_value(key \<mapsto> result), w')))))"

section \<open>03_decorator.py: cache\<close>

text \<open>
  \<^verbatim>\<open>
  def cache(func):
      cache_value = {}

      def wrapper(*args):
          if args in cache_value:
              return cache_value[args]
          result = func(*args)
          cache_value[args] = result
          return result

      return wrapper
  \<close>
  The wrapper has no \<^verbatim>\<open>**kwargs\<close>: a call with a named argument is a \<^verbatim>\<open>TypeError\<close>
  before its body runs. The lookup \<^verbatim>\<open>args in cache_value\<close> hashes the tuple, which is a
  \<^verbatim>\<open>TypeError\<close> when an element is not hashable.
\<close>

definition cache03_wrapper ::
  "('w, 'r) computation \<Rightarrow> pyval list \<Rightarrow> kwargs \<Rightarrow> (pyval list \<rightharpoonup> 'r) \<times> 'w
     \<Rightarrow> (pyexn + 'r) \<times> ((pyval list \<rightharpoonup> 'r) \<times> 'w)" where
  "cache03_wrapper func args kwargs st =
     (case st of (cache_value, w) \<Rightarrow>
        if kwargs \<noteq> [] then (Inl TypeError, (cache_value, w))
        else if \<not> py_hashable (PTuple args) then (Inl TypeError, (cache_value, w))
        else
          (case cache_value args of
             Some r \<Rightarrow> (Inr r, (cache_value, w))
           | None \<Rightarrow>
               (case func args [] w of
                  (Inl e, w') \<Rightarrow> (Inl e, (cache_value, w'))
                | (Inr result, w') \<Rightarrow> (Inr result, (cache_value(args \<mapsto> result), w')))))"

section \<open>04_functions/01.py: memoize\<close>

text \<open>
  \<^verbatim>\<open>
  def memoize(func):
      cache = {}

      def memoized_func(*args):
          if args in cache:
              return cache[args]
          result = func(*args)
          cache[args] = result
          return result

      memoized_func.cache = cache
      memoized_func.clear_cache = lambda: cache.clear()
      return memoized_func
  \<close>
\<close>

definition memoized_func ::
  "('w, 'r) computation \<Rightarrow> pyval list \<Rightarrow> kwargs \<Rightarrow> (pyval list \<rightharpoonup> 'r) \<times> 'w
     \<Rightarrow> (pyexn + 'r) \<times> ((pyval list \<rightharpoonup> 'r) \<times> 'w)" where
  "memoized_func func args kwargs st =
     (case st of (cache, w) \<Rightarrow>
        if kwargs \<noteq> [] then (Inl TypeError, (cache, w))
        else if \<not> py_hashable (PTuple args) then (Inl TypeError, (cache, w))
        else
          (case cache args of
             Some r \<Rightarrow> (Inr r, (cache, w))
           | None \<Rightarrow>
               (case func args [] w of
                  (Inl e, w') \<Rightarrow> (Inl e, (cache, w'))
                | (Inr result, w') \<Rightarrow> (Inr result, (cache(args \<mapsto> result), w')))))"

text \<open>
  \<^verbatim>\<open>memoized_func.clear_cache = lambda: cache.clear()\<close>; \<open>dict_clear\<close> is the
  \<^verbatim>\<open>clear\<close> method of a dictionary. The same method is what a holder of the mapping that
  decorator.py exposes as \<^verbatim>\<open>wrapper.cache\<close> can call on it.
\<close>

definition dict_clear :: "('k \<rightharpoonup> 'r) \<Rightarrow> ('k \<rightharpoonup> 'r)" where
  "dict_clear d = Map.empty"

definition clear_cache :: "('k \<rightharpoonup> 'r) \<times> 'w \<Rightarrow> ('k \<rightharpoonup> 'r) \<times> 'w" where
  "clear_cache st = (case st of (cache, w) \<Rightarrow> (dict_clear cache, w))"

section \<open>A caller making a sequence of calls\<close>

fun run_calls ::
  "(pyval list \<Rightarrow> kwargs \<Rightarrow> 's \<Rightarrow> 'a \<times> 's) \<Rightarrow> (pyval list \<times> kwargs) list \<Rightarrow> 's
     \<Rightarrow> 'a list \<times> 's" where
  "run_calls f [] st = ([], st)"
| "run_calls f ((args, kwargs) # cs) st =
     (case f args kwargs st of (res, st') \<Rightarrow>
        (case run_calls f cs st' of (rs, st'') \<Rightarrow> (res # rs, st'')))"

section \<open>03_decorator.py: long\_running\_function\<close>

text \<open>
  Binding the arguments of a call to the parameters of a \<^verbatim>\<open>def\<close> without defaults: too
  many positional arguments, a name that is no parameter or is already bound positionally,
  and a parameter left unbound are each a \<^verbatim>\<open>TypeError\<close>.
\<close>

definition bind_args :: "string list \<Rightarrow> pyval list \<Rightarrow> kwargs \<Rightarrow> pyexn + (string \<rightharpoonup> pyval)" where
  "bind_args params args kwargs =
     (if length params < length args then Inl TypeError
      else if \<exists>k \<in> set (map fst kwargs). k \<notin> set (drop (length args) params) then Inl TypeError
      else if \<exists>p \<in> set (drop (length args) params). p \<notin> set (map fst kwargs) then Inl TypeError
      else Inr (map_of (zip params args @ kwargs)))"

fun py_add :: "pyval \<Rightarrow> pyval \<Rightarrow> pyexn + pyval" where
  "py_add (PInt a) (PInt b) = Inr (PInt (a + b))"
| "py_add (PStr a) (PStr b) = Inr (PStr (a @ b))"
| "py_add (PTuple a) (PTuple b) = Inr (PTuple (a @ b))"
| "py_add (PList a) (PList b) = Inr (PList (a @ b))"
| "py_add _ _ = Inl TypeError"

text \<open>The body \<^verbatim>\<open>time.sleep(4); return a + b\<close>; the sleep has no effect on the result.\<close>

definition long_running_function :: "('w, pyval) computation" where
  "long_running_function args kwargs w =
     (case bind_args [''a'', ''b''] args kwargs of
        Inl e \<Rightarrow> (Inl e, w)
      | Inr env \<Rightarrow>
          (case (env ''a'', env ''b'') of
             (Some a, Some b) \<Rightarrow> (py_add a b, w)
           | _ \<Rightarrow> (Inl TypeError, w)))"

section \<open>decorator.py: process\_large\_file\<close>

text \<open>
  \<^verbatim>\<open>
  @cache
  @timer
  @log_calls
  def process_large_file(filename, operation="read"):
      time.sleep(1)
      return f"Processed {filename} with {operation} operation"
  \<close>
  \<^verbatim>\<open>timer\<close> and \<^verbatim>\<open>log_calls\<close> hand the arguments to the function and its result back
  unchanged, so the computation under the cache is the function itself. The default of
  \<^verbatim>\<open>operation\<close> is used when the call gives it neither by position nor by name.
\<close>

definition process_large_file :: "('w, pyval) computation" where
  "process_large_file args kwargs w =
     (let kwargs' =
        (if length args < 2 \<and> ''operation'' \<notin> set (map fst kwargs)
         then kwargs @ [(''operation'', PStr ''read'')] else kwargs)
      in case bind_args [''filename'', ''operation''] args kwargs' of
           Inl e \<Rightarrow> (Inl e, w)
         | Inr env \<Rightarrow>
             (case (env ''filename'', env ''operation'') of
                (Some filename, Some operation) \<Rightarrow>
                  (Inr (PStr (''Processed '' @ py_str filename @ '' with '' @ py_str operation
                     @ '' operation'')), w)
              | _ \<Rightarrow> (Inl TypeError, w)))"

section \<open>decorator.py: fibonacci\<close>

text \<open>
  After \<^verbatim>\<open>@cache\<close> the global name \<^verbatim>\<open>fibonacci\<close> is the wrapper; the decorated
  function, \<open>fibonacci_func\<close> here, calls that name, so its recursive calls go through
  the cache. The wrapper is the one of \<open>cache_wrapper\<close>, called with one positional and
  no named argument; the dictionary it stores into is the one the inner calls have filled.
  The function is called on integers and does not raise.
\<close>

text \<open>
  \<^verbatim>\<open>
  @cache
  def fibonacci(n):
      if n <= 1:
          return n
      return fibonacci(n - 1) + fibonacci(n - 2)
  \<close>
\<close>

function fibonacci :: "int \<Rightarrow> (string \<rightharpoonup> int) \<Rightarrow> int \<times> (string \<rightharpoonup> int)"
  and fibonacci_func :: "int \<Rightarrow> (string \<rightharpoonup> int) \<Rightarrow> int \<times> (string \<rightharpoonup> int)" where
  "fibonacci n cache_value =
     (let key = cache_key [PInt n] [] in
      case cache_value key of
        Some r \<Rightarrow> (r, cache_value)
      | None \<Rightarrow>
          (case fibonacci_func n cache_value of
             (result, cache_value') \<Rightarrow> (result, cache_value'(key \<mapsto> result))))"
| "fibonacci_func n cache_value =
     (if n \<le> 1 then (n, cache_value)
      else
        (case fibonacci (n - 1) cache_value of
           (x, cache_value1) \<Rightarrow>
             (case fibonacci (n - 2) cache_value1 of
                (y, cache_value2) \<Rightarrow> (x + y, cache_value2))))"
  by pat_completeness auto
termination
  by (relation "measure (\<lambda>x. case x of Inl (n, c) \<Rightarrow> 2 * nat n + 2 | Inr (n, c) \<Rightarrow> 2 * nat n + 1)")
     auto

text \<open>
  The recurrence without the cache (the body of \<^verbatim>\<open>fibonacci\<close> calling itself), and the
  Fibonacci numbers on the naturals.
\<close>

function fib_rec :: "int \<Rightarrow> int" where
  "fib_rec n = (if n \<le> 1 then n else fib_rec (n - 1) + fib_rec (n - 2))"
  by pat_completeness auto
termination
  by (relation "measure nat") auto

fun fib_nat :: "nat \<Rightarrow> nat" where
  "fib_nat 0 = 0"
| "fib_nat (Suc 0) = 1"
| "fib_nat (Suc (Suc n)) = fib_nat (Suc n) + fib_nat n"


declare fibonacci.simps [simp del] fibonacci_func.simps [simp del] fib_rec.simps [simp del]

text \<open>A caller invoking \<^verbatim>\<open>fibonacci\<close> on each element of a list, one after the other.\<close>

fun fibonacci_calls :: "int list \<Rightarrow> (string \<rightharpoonup> int) \<Rightarrow> int list \<times> (string \<rightharpoonup> int)" where
  "fibonacci_calls [] cache_value = ([], cache_value)"
| "fibonacci_calls (n # ns) cache_value =
     (case fibonacci n cache_value of (r, cache_value') \<Rightarrow>
        (case fibonacci_calls ns cache_value' of (rs, cache_value'') \<Rightarrow> (r # rs, cache_value'')))"

text \<open>Reading a decimal numeral back, and the caches whose entries are values of the recurrence.\<close>

definition undigits :: "string \<Rightarrow> nat" where
  "undigits s = foldl (\<lambda>a c. 10 * a + (of_char c - 48)) 0 s"

definition fib_cache_ok :: "(string \<rightharpoonup> int) \<Rightarrow> bool" where
  "fib_cache_ok cache_value = (\<forall>m r. cache_value (cache_key [PInt m] []) = Some r \<longrightarrow> r = fib_rec m)"

section \<open>Reading a key back\<close>

text \<open>
  Notions for showing that the text of a key determines the arguments when these are
  plain, that is built from \<^verbatim>\<open>None\<close>, integers, strings, tuples and lists: the text of a
  plain value can be read back in one way only when no digit follows it (a digit after the
  text of an integer would extend it), and its first character tells the kind of value.
\<close>

definition no_digit_ahead :: "string \<Rightarrow> bool" where
  "no_digit_ahead r = (case r of [] \<Rightarrow> True | c # cs \<Rightarrow> c \<notin> set ''0123456789'')"

definition first_kind :: "char \<Rightarrow> nat" where
  "first_kind c =
     (if c = CHR ''N'' then 0
      else if c = CHR ''-'' \<or> c \<in> set ''0123456789'' then 1
      else if c = CHR 0x27 \<or> c = CHR 0x22 then 2
      else if c = CHR ''('' then 3
      else if c = CHR ''['' then 4 else 5)"

fun constructor_kind :: "pyval \<Rightarrow> nat" where
  "constructor_kind PNone = 0"
| "constructor_kind (PInt i) = 1"
| "constructor_kind (PStr s) = 2"
| "constructor_kind (PTuple xs) = 3"
| "constructor_kind (PList xs) = 4"
| "constructor_kind (PObj i t) = 5"

fun plain :: "pyval \<Rightarrow> bool" where
  "plain PNone = True"
| "plain (PInt i) = True"
| "plain (PStr s) = True"
| "plain (PTuple xs) = (\<forall>x \<in> set xs. plain x)"
| "plain (PList xs) = (\<forall>x \<in> set xs. plain x)"
| "plain (PObj i t) = False"

definition plain_call :: "pyval list \<Rightarrow> kwargs \<Rightarrow> bool" where
  "plain_call args kwargs = ((\<forall>x \<in> set args. plain x) \<and> (\<forall>(k, v) \<in> set kwargs. plain v))"

definition more_items :: "pyval list \<Rightarrow> string" where
  "more_items xs = concat (map (\<lambda>x. '', '' @ py_repr x) xs)"

definition unique_reading :: "pyval \<Rightarrow> bool" where
  "unique_reading v =
     (\<forall>w r s. plain w \<and> no_digit_ahead r \<and> no_digit_ahead s \<and> py_repr v @ r = py_repr w @ s
        \<longrightarrow> v = w \<and> r = s)"

section \<open>Facts about a single call\<close>

lemma cache_wrapper_keeps:
  "fst st k = Some r \<Longrightarrow> fst (snd (cache_wrapper func a kw st)) k = Some r"
  by (cases st) (auto simp: cache_wrapper_def Let_def split: option.splits prod.splits sum.splits)

lemma cache_wrapper_hit:
  "fst st (cache_key a kw) = Some r \<Longrightarrow> fst (cache_wrapper func a kw st) = Inr r"
  by (cases st) (auto simp: cache_wrapper_def Let_def split: option.splits prod.splits sum.splits)

lemma cache_wrapper_stored:
  "cache_wrapper func a kw st = (Inr r, st1) \<Longrightarrow> fst st1 (cache_key a kw) = Some r"
  by (cases st) (auto simp: cache_wrapper_def Let_def split: option.splits prod.splits sum.splits)

lemma cache03_wrapper_keeps:
  "fst st k = Some r \<Longrightarrow> fst (snd (cache03_wrapper func a kw st)) k = Some r"
  by (cases st) (auto simp: cache03_wrapper_def split: option.splits prod.splits sum.splits)

lemma cache03_wrapper_hit:
  "fst st a = Some r \<Longrightarrow> py_hashable (PTuple a) \<Longrightarrow> fst (cache03_wrapper func a [] st) = Inr r"
  by (cases st) (auto simp: cache03_wrapper_def split: option.splits prod.splits sum.splits)

lemma cache03_wrapper_stored:
  "cache03_wrapper func a kw st = (Inr r, st1) \<Longrightarrow>
     fst st1 a = Some r \<and> py_hashable (PTuple a) \<and> kw = []"
  by (cases st)
     (auto simp: cache03_wrapper_def split: option.splits prod.splits sum.splits if_splits)

section \<open>Facts about sequences of calls\<close>

lemma cache_calls_consistent:
  "fst st k = Some r \<Longrightarrow> run_calls (cache_wrapper func) cs st = (rs, st2) \<Longrightarrow>
     fst st2 k = Some r \<and> length rs = length cs \<and>
     (\<forall>i < length cs. cache_key (fst (cs ! i)) (snd (cs ! i)) = k \<longrightarrow> rs ! i = Inr r)"
proof (induction cs arbitrary: st rs)
  case Nil
  then show ?case by simp
next
  case (Cons c cs)
  obtain a kw where c: "c = (a, kw)" by (cases c)
  obtain res st' where step: "cache_wrapper func a kw st = (res, st')"
    by (cases "cache_wrapper func a kw st")
  obtain rs' where rest: "run_calls (cache_wrapper func) cs st' = (rs', st2)"
    and rs: "rs = res # rs'"
    using Cons.prems(2) c step by (auto split: prod.splits)
  have keep: "fst st' k = Some r"
    using cache_wrapper_keeps [OF Cons.prems(1), of func a kw] step by simp
  have ih: "fst st2 k = Some r \<and> length rs' = length cs \<and>
     (\<forall>i < length cs. cache_key (fst (cs ! i)) (snd (cs ! i)) = k \<longrightarrow> rs' ! i = Inr r)"
    using Cons.IH [OF keep rest] .
  have first: "cache_key a kw = k \<longrightarrow> res = Inr r"
    using cache_wrapper_hit [of st a kw r func] Cons.prems(1) step by auto
  show ?case
    using ih first c rs by (auto simp: nth_Cons split: nat.splits)
qed

lemma cache03_calls_consistent:
  "fst st a = Some r \<Longrightarrow> py_hashable (PTuple a) \<Longrightarrow>
   run_calls (cache03_wrapper func) cs st = (rs, st2) \<Longrightarrow>
     fst st2 a = Some r \<and> length rs = length cs \<and>
     (\<forall>i < length cs. cs ! i = (a, []) \<longrightarrow> rs ! i = Inr r)"
proof (induction cs arbitrary: st rs)
  case Nil
  then show ?case by simp
next
  case (Cons c cs)
  obtain b kw where c: "c = (b, kw)" by (cases c)
  obtain res st' where step: "cache03_wrapper func b kw st = (res, st')"
    by (cases "cache03_wrapper func b kw st")
  obtain rs' where rest: "run_calls (cache03_wrapper func) cs st' = (rs', st2)"
    and rs: "rs = res # rs'"
    using Cons.prems(3) c step by (auto split: prod.splits)
  have keep: "fst st' a = Some r"
    using cache03_wrapper_keeps [OF Cons.prems(1), of func b kw] step by simp
  have ih: "fst st2 a = Some r \<and> length rs' = length cs \<and>
     (\<forall>i < length cs. cs ! i = (a, []) \<longrightarrow> rs' ! i = Inr r)"
    using Cons.IH [OF keep Cons.prems(2) rest] .
  have first: "c = (a, []) \<longrightarrow> res = Inr r"
    using cache03_wrapper_hit [of st a r func] Cons.prems(1,2) step c by auto
  show ?case
    using ih first rs by (auto simp: nth_Cons split: nat.splits)
qed

lemma sort_key_fst_unique:
  assumes "distinct (map fst kw1)" "distinct (map fst kw2)" "map_of kw1 = map_of kw2"
  shows "sort_key fst kw1 = sort_key fst (kw2 :: (string \<times> 'a) list)"
proof -
  have s: "set kw1 = set kw2"
    using assms by (simp add: map_of_inject_set)
  have inj: "inj_on fst (set kw1)"
    using assms(1) by (simp add: distinct_map)
  show ?thesis
    by (rule map_sorted_distinct_set_unique [of fst])
       (use s inj assms in \<open>simp_all add: distinct_map\<close>)
qed

lemmas eval_defs =
  cache_key_def sorted_items_def str_int_def digits.simps digit_char_def str_repr_def
  escape_char_def printable_def hex2_def Let_def long_running_function_def bind_args_def
  cache_wrapper_def cache03_wrapper_def memoized_func_def counting_def clear_cache_def
  dict_clear_def

section \<open>Decimal numerals and the memoized Fibonacci function\<close>

lemma digit_cases: "d < 10 \<Longrightarrow> d \<in> {0, 1, 2, 3, 4, 5, 6, 7, 8, 9 :: nat}"
  by auto

lemma digit_char_code: "d < 10 \<Longrightarrow> of_char (digit_char d) = 48 + d"
  using digit_cases [of d] by (auto simp: digit_char_def)

lemma digit_char_in: "d < 10 \<Longrightarrow> digit_char d \<in> set ''0123456789''"
  using digit_cases [of d] by (auto simp: digit_char_def)

lemma undigits_digits: "undigits (digits n) = n"
proof (induction n rule: digits.induct)
  case (1 n)
  show ?case
  proof (cases "n < 10")
    case True
    then show ?thesis
      by (subst digits.simps) (simp add: undigits_def digit_char_code)
  next
    case False
    have "undigits (digits n) = 10 * undigits (digits (n div 10)) + (of_char (digit_char (n mod 10)) - 48)"
      using False by (subst digits.simps) (simp add: undigits_def)
    also have "\<dots> = 10 * (n div 10) + n mod 10"
      using 1 False by (simp add: digit_char_code)
    finally show ?thesis by simp
  qed
qed

lemma digits_inj: "digits n = digits m \<Longrightarrow> n = m"
  by (metis undigits_digits)

lemma set_digits: "set (digits n) \<subseteq> set ''0123456789''"
proof (induction n rule: digits.induct)
  case (1 n)
  show ?case
  proof (cases "n < 10")
    case True
    then show ?thesis
      using digit_char_in [of n] by (subst digits.simps) simp
  next
    case False
    then show ?thesis
      using 1 digit_char_in [of "n mod 10"] by (subst digits.simps) simp
  qed
qed

lemma digits_not_Nil: "digits n \<noteq> []"
  by (subst digits.simps) simp

lemma minus_notin_digits: "CHR ''-'' \<notin> set (digits n)"
  using set_digits [of n] by auto

lemma str_int_inj: "str_int i = str_int j \<Longrightarrow> i = j"
proof -
  assume e: "str_int i = str_int j"
  have no: "\<And>n m. CHR ''-'' # digits n \<noteq> digits m"
    using minus_notin_digits by (metis list.set_intros(1))
  show ?thesis
  proof (cases "i < 0")
    case True
    then have "j < 0"
      using e no [of "nat (- i)" "nat j"] by (auto simp: str_int_def split: if_splits)
    then show ?thesis
      using e True digits_inj [of "nat (- i)" "nat (- j)"] by (simp add: str_int_def)
  next
    case False
    then have "\<not> j < 0"
      using e no [of "nat (- j)" "nat i"] by (auto simp: str_int_def split: if_splits)
    then show ?thesis
      using e False digits_inj [of "nat i" "nat j"] by (simp add: str_int_def)
  qed
qed

lemma fib_key_inj: "cache_key [PInt n] [] = cache_key [PInt m] [] \<Longrightarrow> n = m"
  by (simp add: cache_key_def sorted_items_def str_int_inj)

lemma fib_cache_ok_update:
  "fib_cache_ok c \<Longrightarrow> fib_cache_ok (c(cache_key [PInt n] [] \<mapsto> fib_rec n))"
  unfolding fib_cache_ok_def using fib_key_inj by (auto simp: fun_upd_def)

lemma fibonacci_refines:
  "fib_cache_ok c \<longrightarrow> fst (fibonacci n c) = fib_rec n \<and> fib_cache_ok (snd (fibonacci n c))"
  "fib_cache_ok c \<longrightarrow> fst (fibonacci_func n c) = fib_rec n \<and> fib_cache_ok (snd (fibonacci_func n c))"
proof (induct n c and n c rule: fibonacci_fibonacci_func.induct)
  case (1 n c)
  show ?case
  proof
    assume ok: "fib_cache_ok c"
    show "fst (fibonacci n c) = fib_rec n \<and> fib_cache_ok (snd (fibonacci n c))"
    proof (cases "c (cache_key [PInt n] [])")
      case None
      obtain r c' where f: "fibonacci_func n c = (r, c')" by (cases "fibonacci_func n c")
      have "r = fib_rec n" "fib_cache_ok c'"
        using 1 [OF refl None] ok f by simp_all
      then show ?thesis
        using None f fib_cache_ok_update [of c' n]
        by (subst (1 2) fibonacci.simps) simp
    next
      case (Some r)
      then have "r = fib_rec n" using ok by (simp add: fib_cache_ok_def)
      then show ?thesis
        using Some ok by (subst (1 2) fibonacci.simps) simp
    qed
  qed
next
  case (2 n c)
  show ?case
  proof
    assume ok: "fib_cache_ok c"
    show "fst (fibonacci_func n c) = fib_rec n \<and> fib_cache_ok (snd (fibonacci_func n c))"
    proof (cases "n \<le> 1")
      case True
      then show ?thesis
        using ok by (subst (1 2) fibonacci_func.simps) (simp add: fib_rec.simps)
    next
      case False
      obtain x c1 where a: "fibonacci (n - 1) c = (x, c1)" by (cases "fibonacci (n - 1) c")
      obtain y c2 where b: "fibonacci (n - 2) c1 = (y, c2)" by (cases "fibonacci (n - 2) c1")
      have x: "x = fib_rec (n - 1)" "fib_cache_ok c1"
        using 2(1) [OF False] ok a by simp_all
      have y: "y = fib_rec (n - 2)" "fib_cache_ok c2"
        using 2(2) [OF False a [symmetric]] x(2) b by simp_all
      have "fib_rec n = fib_rec (n - 1) + fib_rec (n - 2)"
        using False by (subst fib_rec.simps) simp
      then show ?thesis
        using False a b x y by (subst (1 2) fibonacci_func.simps) simp
    qed
  qed
qed

lemma fibonacci_calls_ok:
  "fib_cache_ok c \<Longrightarrow> fst (fibonacci_calls ns c) = map fib_rec ns \<and> fib_cache_ok (snd (fibonacci_calls ns c))"
proof (induction ns arbitrary: c)
  case Nil
  then show ?case by simp
next
  case (Cons n ns)
  obtain r c' where f: "fibonacci n c = (r, c')" by (cases "fibonacci n c")
  have r: "r = fib_rec n" "fib_cache_ok c'"
    using fibonacci_refines(1) [of c n] Cons.prems f by simp_all
  show ?case
    using Cons.IH [OF r(2)] r f by (auto split: prod.splits)
qed

lemma fib_rec_nat: "fib_rec (int k) = int (fib_nat k)"
proof (induction k rule: fib_nat.induct)
  case 1
  show ?case by (subst fib_rec.simps) simp
next
  case 2
  show ?case by (subst fib_rec.simps) simp
next
  case (3 n)
  have "fib_rec (int (Suc (Suc n))) = fib_rec (int (Suc n)) + fib_rec (int n)"
    by (subst fib_rec.simps) (simp add: algebra_simps)
  then show ?case using 3 by simp
qed

section \<open>The key determines the arguments\<close>

lemma digit_char_inj: "a < 16 \<Longrightarrow> b < 16 \<Longrightarrow> digit_char a = digit_char b \<Longrightarrow> a = b"
  unfolding digit_char_def
  by (subst (asm) nth_eq_iff_index_eq) simp_all

lemma of_char_less_256: "(of_char c :: nat) < 256"
  using of_char_mod_256 [of c, where ?'a = nat] by (metis mod_less_divisor zero_less_numeral)

lemma hex2_inj: "hex2 c @ x = hex2 d @ y \<Longrightarrow> c = d \<and> x = y"
proof -
  assume e: "hex2 c @ x = hex2 d @ y"
  let ?n = "of_char c :: nat" and ?m = "of_char d :: nat"
  have n: "?n div 16 < 16" "?n mod 16 < 16" "?m div 16 < 16" "?m mod 16 < 16"
    using of_char_less_256 [of c] of_char_less_256 [of d] by (simp_all add: less_mult_imp_div_less)
  have "digit_char (?n div 16) = digit_char (?m div 16)"
    "digit_char (?n mod 16) = digit_char (?m mod 16)" "x = y"
    using e by (simp_all add: hex2_def)
  then have "?n div 16 = ?m div 16" "?n mod 16 = ?m mod 16"
    using n digit_char_inj by blast+
  then have "?n = ?m"
    by (metis div_mult_mod_eq)
  then show ?thesis using \<open>x = y\<close> by simp
qed

lemma escape_char_prefix:
  assumes q: "q = CHR 0x27 \<or> q = CHR 0x22"
    and e: "escape_char q c @ x = escape_char q d @ y"
  shows "c = d \<and> x = y"
proof -
  show ?thesis
    using q e hex2_inj [of c x d y]
    by (auto simp: escape_char_def split: if_splits)
qed

lemma escape_char_head:
  "q = CHR 0x27 \<or> q = CHR 0x22 \<Longrightarrow> escape_char q c @ x \<noteq> q # y"
  by (auto simp: escape_char_def split: if_splits)

lemma escaped_body_unique:
  assumes q: "q = CHR 0x27 \<or> q = CHR 0x22"
  shows "concat (map (escape_char q) s) @ q # r = concat (map (escape_char q) t) @ q # r'
     \<Longrightarrow> s = t \<and> r = r'"
proof (induction s arbitrary: t)
  case Nil
  then show ?case
    using escape_char_head [OF q] by (cases t) (auto simp: eq_commute)
next
  case (Cons c s)
  show ?case
  proof (cases t)
    case Nil
    then show ?thesis using Cons.prems escape_char_head [OF q, of c] by auto
  next
    case (Cons d t')
    have "c = d \<and> concat (map (escape_char q) s) @ q # r = concat (map (escape_char q) t') @ q # r'"
      using escape_char_prefix [OF q, of c _ d] Cons.prems Cons by simp
    then show ?thesis using Cons.IH [of t'] Cons by simp
  qed
qed

lemma str_repr_unique: "str_repr s @ r = str_repr t @ r' \<Longrightarrow> s = t \<and> r = r'"
proof -
  assume e: "str_repr s @ r = str_repr t @ r'"
  define q where "q = (if CHR 0x27 \<in> set s \<and> CHR 0x22 \<notin> set s then CHR 0x22 else CHR 0x27)"
  define q' where "q' = (if CHR 0x27 \<in> set t \<and> CHR 0x22 \<notin> set t then CHR 0x22 else CHR 0x27)"
  have s: "str_repr s = q # concat (map (escape_char q) s) @ [q]"
    and t: "str_repr t = q' # concat (map (escape_char q') t) @ [q']"
    by (simp_all add: str_repr_def q_def q'_def Let_def)
  have qq: "q = q'" using e s t by simp
  have q: "q = CHR 0x27 \<or> q = CHR 0x22" by (simp add: q_def)
  show ?thesis
    using escaped_body_unique [OF q, of s r t r'] e s t qq by simp
qed

lemma hd_digits: "\<exists>c cs. digits n = c # cs \<and> c \<in> set ''0123456789''"
  using set_digits [of n] digits_not_Nil [of n] by (cases "digits n") auto

lemma py_repr_first:
  "plain v \<Longrightarrow> \<exists>c cs. py_repr v = c # cs \<and> first_kind c = constructor_kind v"
proof (cases v)
  case (PInt i)
  obtain c cs where "digits (nat i) = c # cs" "c \<in> set ''0123456789''"
    using hd_digits by blast
  then show ?thesis
    using PInt by (auto simp: str_int_def first_kind_def)
next
  case (PStr s)
  then show ?thesis by (simp add: str_repr_def first_kind_def Let_def)
qed (simp_all add: first_kind_def)

lemma same_kind:
  "plain v \<Longrightarrow> plain w \<Longrightarrow> py_repr v @ r = py_repr w @ s \<Longrightarrow>
     constructor_kind v = constructor_kind w"
  using py_repr_first [of v] py_repr_first [of w] by auto

lemma py_repr_head_not:
  "plain v \<Longrightarrow> first_kind c = 5 \<Longrightarrow> py_repr v @ r \<noteq> c # s"
proof -
  assume p: "plain v" and k: "first_kind c = 5"
  obtain c' cs where c': "py_repr v = c' # cs" "first_kind c' = constructor_kind v"
    using py_repr_first [OF p] by blast
  have "constructor_kind v < 5" using p by (cases v) simp_all
  then have "c' \<noteq> c" using k c'(2) by auto
  then show ?thesis using c'(1) by simp
qed

lemma comma_join_Cons: "comma_join (map py_repr (x # xs)) = py_repr x @ more_items xs"
  by (induction xs arbitrary: x) (simp_all add: more_items_def)

lemma takeWhile_digits:
  "no_digit_ahead r \<Longrightarrow> takeWhile (\<lambda>c. c \<in> set ''0123456789'') (digits n @ r) = digits n"
proof -
  assume nd: "no_digit_ahead r"
  have r: "takeWhile (\<lambda>c. c \<in> set ''0123456789'') r = []"
  proof (cases r)
    case Nil
    then show ?thesis by simp
  next
    case (Cons c cs)
    then have "c \<notin> set ''0123456789''"
      using nd by (simp add: no_digit_ahead_def)
    then show ?thesis
      using Cons by (simp only: takeWhile.simps if_False)
  qed
  have all: "\<And>x. x \<in> set (digits n) \<Longrightarrow> x \<in> set ''0123456789''"
    using set_digits [of n] by (rule subsetD)
  have "takeWhile (\<lambda>c. c \<in> set ''0123456789'') (digits n @ r)
      = digits n @ takeWhile (\<lambda>c. c \<in> set ''0123456789'') r"
    by (rule takeWhile_append2) (rule all)
  then show ?thesis
    by (simp only: r append_Nil2)
qed

lemma digits_unique:
  assumes "no_digit_ahead r" "no_digit_ahead s" "digits n @ r = digits m @ s"
  shows "n = m \<and> r = s"
proof -
  have "digits n = digits m"
    using takeWhile_digits [OF assms(1), of n] takeWhile_digits [OF assms(2), of m] assms(3)
    by (simp only:)
  then have "n = m" by (rule digits_inj)
  then show ?thesis using assms(3) by simp
qed

lemma minus_not_digits: "CHR ''-'' # x \<noteq> digits m @ y"
proof -
  obtain c cs where c: "digits m = c # cs" "c \<in> set ''0123456789''"
    using hd_digits by blast
  have "c \<noteq> CHR ''-''" using c(2) by auto
  then show ?thesis using c(1) by simp
qed

lemma str_int_unique:
  assumes "no_digit_ahead r" "no_digit_ahead s" "str_int i @ r = str_int j @ s"
  shows "i = j \<and> r = s"
proof (cases "i < 0")
  case True
  have j: "j < 0"
  proof (rule ccontr)
    assume "\<not> j < 0"
    then have "CHR ''-'' # (digits (nat (- i)) @ r) = digits (nat j) @ s"
      using assms(3) True by (simp add: str_int_def)
    then show False using minus_not_digits by blast
  qed
  have "digits (nat (- i)) @ r = digits (nat (- j)) @ s"
    using assms(3) True j by (simp add: str_int_def)
  then have "nat (- i) = nat (- j) \<and> r = s"
    by (rule digits_unique [OF assms(1,2)])
  then show ?thesis using True j by auto
next
  case False
  have j: "\<not> j < 0"
  proof
    assume "j < 0"
    then have "CHR ''-'' # (digits (nat (- j)) @ s) = digits (nat i) @ r"
      using assms(3) False by (simp add: str_int_def)
    then show False using minus_not_digits by blast
  qed
  have "digits (nat i) @ r = digits (nat j) @ s"
    using assms(3) False j by (simp add: str_int_def)
  then have "nat i = nat j \<and> r = s"
    by (rule digits_unique [OF assms(1,2)])
  then show ?thesis using False j by auto
qed

lemma more_items_Cons: "more_items (x # xs) = CHR '','' # CHR '' '' # py_repr x @ more_items xs"
  by (simp add: more_items_def)

lemma more_items_Nil: "more_items [] = []"
  by (simp add: more_items_def)

lemma no_digit_more_items:
  "c = CHR '')'' \<or> c = CHR '']'' \<Longrightarrow> no_digit_ahead (more_items xs @ c # r)"
  by (cases xs) (auto simp: more_items_Cons more_items_Nil no_digit_ahead_def)

lemma more_items_unique:
  assumes c: "c = CHR '')'' \<or> c = CHR '']''"
  shows "\<forall>x \<in> set xs. unique_reading x \<Longrightarrow> \<forall>y \<in> set ys. plain y \<Longrightarrow>
     more_items xs @ c # r = more_items ys @ c # s \<Longrightarrow> xs = ys \<and> r = s"
proof (induction xs arbitrary: ys)
  case Nil
  show ?case
  proof (cases ys)
    case Nil
    then show ?thesis using Nil.prems by (simp add: more_items_Nil)
  next
    case (Cons y ys')
    then show ?thesis using Nil.prems(3) c by (auto simp: more_items_Nil more_items_Cons)
  qed
next
  case (Cons x xs)
  show ?case
  proof (cases ys)
    case Nil
    then show ?thesis using Cons.prems(3) c by (auto simp: more_items_Nil more_items_Cons)
  next
    case (Cons y ys')
    have e: "py_repr x @ (more_items xs @ c # r) = py_repr y @ (more_items ys' @ c # s)"
      using Cons.prems(3) Cons by (simp add: more_items_Cons)
    have u: "unique_reading x" using Cons.prems(1) by simp
    have py: "plain y" using Cons.prems(2) Cons by simp
    have "x = y \<and> more_items xs @ c # r = more_items ys' @ c # s"
      using u py e no_digit_more_items [OF c, of xs r] no_digit_more_items [OF c, of ys' s]
      unfolding unique_reading_def by blast
    then show ?thesis
      using Cons.IH [of ys'] Cons.prems(1,2) Cons by simp
  qed
qed

lemma list_repr_Cons:
  "py_repr (PList (x # xs)) = CHR ''['' # py_repr x @ more_items xs @ '']''"
  using comma_join_Cons [of x xs] by simp

lemma tuple_repr_Cons:
  "py_repr (PTuple (x # xs)) =
     CHR ''('' # py_repr x @ (if xs = [] then '',)'' else more_items xs @ '')'')"
  using comma_join_Cons [of x xs] by (simp add: more_items_Nil)

lemma list_repr_Nil: "py_repr (PList []) = ''[]''"
  by simp

lemma tuple_repr_Nil: "py_repr (PTuple []) = ''()''"
  by simp

lemma list_unique:
  assumes u: "\<forall>x \<in> set xs. unique_reading x"
    and px: "\<forall>x \<in> set xs. plain x" and py: "\<forall>y \<in> set ys. plain y"
    and e: "py_repr (PList xs) @ r = py_repr (PList ys) @ s"
  shows "xs = ys \<and> r = s"
proof (cases xs)
  case Nil
  show ?thesis
  proof (cases ys)
    case Nil
    then show ?thesis using e \<open>xs = []\<close> by simp
  next
    case (Cons y ys')
    have "CHR '']'' # r = py_repr y @ (more_items ys' @ CHR '']'' # s)"
      using e \<open>xs = []\<close> Cons by (simp add: list_repr_Nil list_repr_Cons del: py_repr.simps)
    moreover have "plain y" using py Cons by simp
    ultimately show ?thesis
      using py_repr_head_not [of y "CHR '']''" "more_items ys' @ CHR '']'' # s" r]
      by (simp add: first_kind_def)
  qed
next
  case (Cons x xs')
  have plx: "plain x" using px Cons by simp
  show ?thesis
  proof (cases ys)
    case Nil
    have "py_repr x @ (more_items xs' @ CHR '']'' # r) = CHR '']'' # s"
      using e Cons Nil by (simp add: list_repr_Nil list_repr_Cons del: py_repr.simps)
    then show ?thesis
      using plx py_repr_head_not [of x "CHR '']''" "more_items xs' @ CHR '']'' # r" s]
      by (simp add: first_kind_def)
  next
    case (Cons y ys')
    have e': "py_repr x @ (more_items xs' @ CHR '']'' # r)
        = py_repr y @ (more_items ys' @ CHR '']'' # s)"
      using e \<open>xs = x # xs'\<close> Cons by (simp add: list_repr_Nil list_repr_Cons del: py_repr.simps)
    have ux: "unique_reading x" using u \<open>xs = x # xs'\<close> by simp
    have ply: "plain y" using py Cons by simp
    have "x = y \<and> more_items xs' @ CHR '']'' # r = more_items ys' @ CHR '']'' # s"
      using ux ply e' no_digit_more_items [of "CHR '']''" xs' r]
        no_digit_more_items [of "CHR '']''" ys' s]
      unfolding unique_reading_def by blast
    then show ?thesis
      using more_items_unique [of "CHR '']''" xs' ys' r s] u py \<open>xs = x # xs'\<close> Cons by simp
  qed
qed

lemma no_digit_tuple_rest:
  "no_digit_ahead ((if xs = [] then '',)'' else more_items xs @ '')'') @ r)"
  using no_digit_more_items [of "CHR '')''" xs r]
  by (simp add: no_digit_ahead_def)

lemma tuple_unique:
  assumes u: "\<forall>x \<in> set xs. unique_reading x"
    and px: "\<forall>x \<in> set xs. plain x" and py: "\<forall>y \<in> set ys. plain y"
    and e: "py_repr (PTuple xs) @ r = py_repr (PTuple ys) @ s"
  shows "xs = ys \<and> r = s"
proof (cases xs)
  case Nil
  show ?thesis
  proof (cases ys)
    case Nil
    then show ?thesis using e \<open>xs = []\<close> by simp
  next
    case (Cons y ys')
    have "CHR '')'' # r = py_repr y @ ((if ys' = [] then '',)'' else more_items ys' @ '')'') @ s)"
      using e \<open>xs = []\<close> Cons by (simp add: tuple_repr_Nil tuple_repr_Cons del: py_repr.simps)
    moreover have "plain y" using py Cons by simp
    ultimately show ?thesis
      using py_repr_head_not [of y "CHR '')''"
          "(if ys' = [] then '',)'' else more_items ys' @ '')'') @ s" r]
      by (simp add: first_kind_def)
  qed
next
  case (Cons x xs')
  have plx: "plain x" using px Cons by simp
  show ?thesis
  proof (cases ys)
    case Nil
    have "py_repr x @ ((if xs' = [] then '',)'' else more_items xs' @ '')'') @ r) = CHR '')'' # s"
      using e Cons Nil by (simp add: tuple_repr_Nil tuple_repr_Cons del: py_repr.simps)
    then show ?thesis
      using plx py_repr_head_not [of x "CHR '')''"
          "(if xs' = [] then '',)'' else more_items xs' @ '')'') @ r" s]
      by (simp add: first_kind_def)
  next
    case (Cons y ys')
    have e': "py_repr x @ ((if xs' = [] then '',)'' else more_items xs' @ '')'') @ r)
        = py_repr y @ ((if ys' = [] then '',)'' else more_items ys' @ '')'') @ s)"
      using e \<open>xs = x # xs'\<close> Cons by (simp add: tuple_repr_Nil tuple_repr_Cons del: py_repr.simps)
    have ux: "unique_reading x" using u \<open>xs = x # xs'\<close> by simp
    have ply: "plain y" using py Cons by simp
    have xy: "x = y" and rest: "(if xs' = [] then '',)'' else more_items xs' @ '')'') @ r
        = (if ys' = [] then '',)'' else more_items ys' @ '')'') @ s"
      using ux ply e' no_digit_tuple_rest [of xs' r] no_digit_tuple_rest [of ys' s]
      unfolding unique_reading_def by blast+
    have "xs' = ys' \<and> r = s"
    proof (cases "xs' = []")
      case True
      show ?thesis
      proof (cases ys')
        case Nil
        then show ?thesis using rest True by simp
      next
        case (Cons z zs)
        then show ?thesis using rest True by (simp add: more_items_Cons)
      qed
    next
      case False
      show ?thesis
      proof (cases "ys' = []")
        case True
        obtain z zs where "xs' = z # zs" using False by (cases xs') auto
        then show ?thesis using rest True by (simp add: more_items_Cons)
      next
        case F2: False
        have "more_items xs' @ CHR '')'' # r = more_items ys' @ CHR '')'' # s"
          using rest False F2 by simp
        then show ?thesis
          using more_items_unique [of "CHR '')''" xs' ys' r s] u py \<open>xs = x # xs'\<close> Cons by simp
      qed
    qed
    then show ?thesis using xy \<open>xs = x # xs'\<close> Cons by simp
  qed
qed

lemma unique_reading_all: "plain v \<Longrightarrow> unique_reading v"
proof (induction v)
  case PNone
  show ?case
    unfolding unique_reading_def
  proof (intro allI impI)
    fix w r s
    assume a: "plain w \<and> no_digit_ahead r \<and> no_digit_ahead s \<and> py_repr PNone @ r = py_repr w @ s"
    then have "constructor_kind w = 0" using same_kind [of PNone w r s] by simp
    then have "w = PNone" by (cases w) simp_all
    then show "PNone = w \<and> r = s" using a by simp
  qed
next
  case (PInt i)
  show ?case
    unfolding unique_reading_def
  proof (intro allI impI)
    fix w r s
    assume a: "plain w \<and> no_digit_ahead r \<and> no_digit_ahead s
      \<and> py_repr (PInt i) @ r = py_repr w @ s"
    then have "constructor_kind w = 1" using same_kind [of "PInt i" w r s] by simp
    then obtain j where w: "w = PInt j" by (cases w) simp_all
    then show "PInt i = w \<and> r = s" using a str_int_unique [of r s i j] by simp
  qed
next
  case (PStr t)
  show ?case
    unfolding unique_reading_def
  proof (intro allI impI)
    fix w r s
    assume a: "plain w \<and> no_digit_ahead r \<and> no_digit_ahead s
      \<and> py_repr (PStr t) @ r = py_repr w @ s"
    then have "constructor_kind w = 2" using same_kind [of "PStr t" w r s] by simp
    then obtain t' where w: "w = PStr t'" by (cases w) simp_all
    then show "PStr t = w \<and> r = s" using a str_repr_unique [of t r t' s] by simp
  qed
next
  case (PTuple xs)
  have px: "\<forall>x \<in> set xs. plain x" using PTuple.prems by simp
  have u: "\<forall>x \<in> set xs. unique_reading x" using PTuple.IH px by blast
  show ?case
    unfolding unique_reading_def
  proof (intro allI impI)
    fix w r s
    assume a: "plain w \<and> no_digit_ahead r \<and> no_digit_ahead s
      \<and> py_repr (PTuple xs) @ r = py_repr w @ s"
    then have "constructor_kind w = 3"
      using same_kind [of "PTuple xs" w r s] PTuple.prems by simp
    then obtain ys where w: "w = PTuple ys" by (cases w) simp_all
    have py: "\<forall>y \<in> set ys. plain y" using a w by simp
    have e: "py_repr (PTuple xs) @ r = py_repr (PTuple ys) @ s" using a w by simp
    have "xs = ys \<and> r = s"
      by (rule tuple_unique [OF u px py e])
    then show "PTuple xs = w \<and> r = s" using w by simp
  qed
next
  case (PList xs)
  have px: "\<forall>x \<in> set xs. plain x" using PList.prems by simp
  have u: "\<forall>x \<in> set xs. unique_reading x" using PList.IH px by blast
  show ?case
    unfolding unique_reading_def
  proof (intro allI impI)
    fix w r s
    assume a: "plain w \<and> no_digit_ahead r \<and> no_digit_ahead s
      \<and> py_repr (PList xs) @ r = py_repr w @ s"
    then have "constructor_kind w = 4"
      using same_kind [of "PList xs" w r s] PList.prems by simp
    then obtain ys where w: "w = PList ys" by (cases w) simp_all
    have py: "\<forall>y \<in> set ys. plain y" using a w by simp
    have e: "py_repr (PList xs) @ r = py_repr (PList ys) @ s" using a w by simp
    have "xs = ys \<and> r = s"
      by (rule list_unique [OF u px py e])
    then show "PList xs = w \<and> r = s" using w by simp
  qed
next
  case (PObj i t)
  then show ?case by simp
qed

lemma py_repr_unique:
  "plain v \<Longrightarrow> plain w \<Longrightarrow> no_digit_ahead r \<Longrightarrow> no_digit_ahead s \<Longrightarrow>
     py_repr v @ r = py_repr w @ s \<Longrightarrow> v = w \<and> r = s"
  using unique_reading_all [of v] unfolding unique_reading_def by blast

lemma sorted_items_inj:
  assumes "sorted_items kw1 = sorted_items kw2"
  shows "sort_key fst kw1 = sort_key fst kw2"
proof -
  have inj: "inj (\<lambda>(k, v). PTuple [PStr k, v])"
    by (auto simp: inj_on_def)
  have "map (\<lambda>(k, v). PTuple [PStr k, v]) (sort_key fst kw1)
      = map (\<lambda>(k, v). PTuple [PStr k, v]) (sort_key fst kw2)"
    using assms by (simp add: sorted_items_def)
  then show ?thesis
    using inj by (simp only: inj_map_eq_map)
qed

lemma plain_sorted_items: "\<forall>(k, v) \<in> set kw. plain v \<Longrightarrow> plain (sorted_items kw)"
  by (auto simp: sorted_items_def)

lemma cache_key_inj:
  assumes d: "distinct (map fst kw1)" "distinct (map fst kw2)"
    and p: "plain_call a1 kw1" "plain_call a2 kw2"
    and e: "cache_key a1 kw1 = cache_key a2 kw2"
  shows "a1 = a2 \<and> map_of kw1 = map_of kw2"
proof -
  obtain i1 where i1: "sorted_items kw1 = PList i1" by (simp add: sorted_items_def)
  obtain i2 where i2: "sorted_items kw2 = PList i2" by (simp add: sorted_items_def)
  have pa: "plain (PTuple a1)" "plain (PTuple a2)"
    using p by (simp_all add: plain_call_def)
  have pi: "plain (PList i1)" "plain (PList i2)"
    using p plain_sorted_items [of kw1] plain_sorted_items [of kw2] i1 i2
    by (simp_all add: plain_call_def)
  have nd: "no_digit_ahead (py_repr (PList i))" for i
    by (simp add: no_digit_ahead_def)
  have e': "py_repr (PTuple a1) @ py_repr (PList i1) = py_repr (PTuple a2) @ py_repr (PList i2)"
    using e i1 i2 by (simp add: cache_key_def del: py_repr.simps)
  have one: "PTuple a1 = PTuple a2 \<and> py_repr (PList i1) = py_repr (PList i2)"
    by (rule py_repr_unique [OF pa nd nd e'])
  have nil: "no_digit_ahead []" by (simp add: no_digit_ahead_def)
  have "py_repr (PList i1) @ [] = py_repr (PList i2) @ []"
    using one by simp
  then have "PList i1 = PList i2 \<and> ([] :: string) = []"
    by (rule py_repr_unique [OF pi nil nil])
  then have "sort_key fst kw1 = sort_key fst kw2"
    using i1 i2 sorted_items_inj by simp
  then have "set kw1 = set kw2"
    by (metis set_sort)
  then have "map_of kw1 = map_of kw2"
    using d by (simp add: map_of_inject_set)
  then show ?thesis using one by simp
qed

lemma cache_wrapper_frame:
  "k \<noteq> cache_key a kw \<Longrightarrow> fst (snd (cache_wrapper func a kw (c, w))) k = c k"
  by (auto simp: cache_wrapper_def Let_def split: option.splits sum.splits prod.splits)

lemma cache_wrapper_lookup_only:
  "c1 (cache_key b kw) = c (cache_key b kw) \<Longrightarrow>
     fst (cache_wrapper g b kw (c1, wn)) = fst (cache_wrapper g b kw (c, wn))
   \<and> snd (snd (cache_wrapper g b kw (c1, wn))) = snd (snd (cache_wrapper g b kw (c, wn)))"
  by (auto simp: cache_wrapper_def Let_def split: option.splits sum.splits prod.splits)

lemma cache03_wrapper_frame:
  "k \<noteq> a \<Longrightarrow> fst (snd (cache03_wrapper func a kw (c, w))) k = c k"
  by (auto simp: cache03_wrapper_def split: option.splits sum.splits prod.splits)

lemma cache03_wrapper_lookup_only:
  "c1 b = c b \<Longrightarrow>
     fst (cache03_wrapper g b kw (c1, wn)) = fst (cache03_wrapper g b kw (c, wn))
   \<and> snd (snd (cache03_wrapper g b kw (c1, wn))) = snd (snd (cache03_wrapper g b kw (c, wn)))"
  by (auto simp: cache03_wrapper_def split: option.splits sum.splits prod.splits)

lemmas fib_eval =
  fibonacci.simps fibonacci_func.simps cache_key_def sorted_items_def str_int_def digits.simps
  digit_char_def

section \<open>The claims\<close>

text \<open>
  C1. Calling the memoized computation twice with the same arguments invokes the wrapped
  computation exactly once. When the key is not yet in the cache and the computation
  returns \<open>r\<close>, the first call invokes it (the invocation count goes from \<open>n\<close> to
  \<open>Suc n\<close>), stores \<open>r\<close> under the key and returns \<open>r\<close>; the second call, with any
  arguments of the same key, returns \<open>r\<close> and leaves the cache, the world and the count
  as they were. This holds for the string-keyed cache of decorator.py and, for hashable
  positional arguments, for the tuple-keyed cache of 03\_decorator.py.
\<close>

theorem memoized_twice_invokes_once:
  "(cache_value (cache_key args kwargs) = None \<and> func args kwargs w = (Inr r, w')
      \<and> cache_key args2 kwargs2 = cache_key args kwargs \<longrightarrow>
      cache_wrapper (counting func) args kwargs (cache_value, (w, n))
        = (Inr r, (cache_value(cache_key args kwargs \<mapsto> r), (w', Suc n)))
    \<and> cache_wrapper (counting func) args2 kwargs2
          (cache_value(cache_key args kwargs \<mapsto> r), (w', Suc n))
        = (Inr r, (cache_value(cache_key args kwargs \<mapsto> r), (w', Suc n))))
   \<and> (py_hashable (PTuple args) \<and> cache03 args = None \<and> func args [] w = (Inr r, w') \<longrightarrow>
      cache03_wrapper (counting func) args [] (cache03, (w, n))
        = (Inr r, (cache03(args \<mapsto> r), (w', Suc n)))
    \<and> cache03_wrapper (counting func) args [] (cache03(args \<mapsto> r), (w', Suc n))
        = (Inr r, (cache03(args \<mapsto> r), (w', Suc n))))"
  by (simp add: cache_wrapper_def cache03_wrapper_def counting_def)

theorem memoized_twice_invokes_once_witness:
  "cache_wrapper (counting long_running_function) [PInt 2, PInt 3] [] (Map.empty, ((), 0))
     = (Inr (PInt 5), ([''(2, 3)[]'' \<mapsto> PInt 5], ((), Suc 0)))
   \<and> cache_wrapper (counting long_running_function) [PInt 2, PInt 3] []
        ([''(2, 3)[]'' \<mapsto> PInt 5], ((), Suc 0))
     = (Inr (PInt 5), ([''(2, 3)[]'' \<mapsto> PInt 5], ((), Suc 0)))
   \<and> cache03_wrapper (counting long_running_function) [PInt 2, PInt 3] [] (Map.empty, ((), 0))
     = (Inr (PInt 5), ([[PInt 2, PInt 3] \<mapsto> PInt 5], ((), Suc 0)))
   \<and> cache03_wrapper (counting long_running_function) [PInt 2, PInt 3] []
        ([[PInt 2, PInt 3] \<mapsto> PInt 5], ((), Suc 0))
     = (Inr (PInt 5), ([[PInt 2, PInt 3] \<mapsto> PInt 5], ((), Suc 0)))"
proof -
  have key: "cache_key [PInt 2, PInt 3] [] = ''(2, 3)[]''"
    by (simp add: cache_key_def sorted_items_def str_int_def digits.simps digit_char_def)
  have run: "long_running_function [PInt 2, PInt 3] [] () = (Inr (PInt 5), ())"
    by (simp add: long_running_function_def bind_args_def)
  show ?thesis
    using memoized_twice_invokes_once [of Map.empty "[PInt 2, PInt 3]" "[]"
        long_running_function "()" "PInt 5" "()" "[PInt 2, PInt 3]" "[]" 0 Map.empty]
      key run
    by simp
qed

text \<open>
  C2. When the wrapped computation raises on a miss, the exception reaches the caller and
  nothing is stored: the cache is the one before the call. The next call with the same
  arguments therefore invokes the computation again (the count reaches \<open>Suc (Suc n)\<close>)
  and returns or raises whatever that second invocation does.
\<close>

theorem failure_not_cached:
  "(cache_value (cache_key args kwargs) = None \<and> func args kwargs w = (Inl e, w') \<longrightarrow>
      cache_wrapper (counting func) args kwargs (cache_value, (w, n))
        = (Inl e, (cache_value, (w', Suc n)))
    \<and> cache_wrapper (counting func) args kwargs (cache_value, (w', Suc n))
        = (case func args kwargs w' of
             (Inl e2, w2) \<Rightarrow> (Inl e2, (cache_value, (w2, Suc (Suc n))))
           | (Inr r, w2) \<Rightarrow>
               (Inr r, (cache_value(cache_key args kwargs \<mapsto> r), (w2, Suc (Suc n))))))
   \<and> (py_hashable (PTuple args) \<and> cache03 args = None \<and> func args [] w = (Inl e, w') \<longrightarrow>
      cache03_wrapper (counting func) args [] (cache03, (w, n))
        = (Inl e, (cache03, (w', Suc n)))
    \<and> cache03_wrapper (counting func) args [] (cache03, (w', Suc n))
        = (case func args [] w' of
             (Inl e2, w2) \<Rightarrow> (Inl e2, (cache03, (w2, Suc (Suc n))))
           | (Inr r, w2) \<Rightarrow> (Inr r, (cache03(args \<mapsto> r), (w2, Suc (Suc n))))))"
  by (simp add: cache_wrapper_def cache03_wrapper_def counting_def
      split: prod.splits sum.splits)

theorem failure_not_cached_witness:
  "cache_wrapper (counting long_running_function) [PInt 2, PStr ''x''] [] (Map.empty, ((), 0))
     = (Inl TypeError, (Map.empty, ((), Suc 0)))
   \<and> cache_wrapper (counting long_running_function) [PInt 2, PStr ''x''] []
        (Map.empty, ((), Suc 0))
     = (Inl TypeError, (Map.empty, ((), Suc (Suc 0))))
   \<and> cache03_wrapper (counting long_running_function) [PInt 2, PStr ''x''] []
        (Map.empty, ((), 0))
     = (Inl TypeError, (Map.empty, ((), Suc 0)))
   \<and> cache03_wrapper (counting long_running_function) [PInt 2, PStr ''x''] []
        (Map.empty, ((), Suc 0))
     = (Inl TypeError, (Map.empty, ((), Suc (Suc 0))))"
proof -
  have run: "long_running_function [PInt 2, PStr ''x''] [] () = (Inl TypeError, ())"
    by (simp add: long_running_function_def bind_args_def)
  show ?thesis
    using failure_not_cached [of Map.empty "[PInt 2, PStr ''x'']" "[]"
        long_running_function "()" TypeError "()" 0 Map.empty]
      run
    by simp
qed

text \<open>
  C3. Once the memoized computation has returned \<open>r\<close> for a key (on a miss, this is the
  first result computed for it), the entry of that key is \<open>r\<close> and stays \<open>r\<close> through
  any later sequence of calls \<open>cs\<close> with any arguments, and every later call with that
  key returns \<open>r\<close>. Sequences of calls do not contain a clearing of the cache.
\<close>

theorem results_fixed_per_key:
  "(cache_wrapper func args kwargs st = (Inr r, st1)
      \<and> run_calls (cache_wrapper func) cs st1 = (rs, st2) \<longrightarrow>
      fst st1 (cache_key args kwargs) = Some r \<and> fst st2 (cache_key args kwargs) = Some r
    \<and> length rs = length cs
    \<and> (\<forall>i < length cs.
          cache_key (fst (cs ! i)) (snd (cs ! i)) = cache_key args kwargs \<longrightarrow> rs ! i = Inr r))
   \<and> (cache03_wrapper func args kwargs st03 = (Inr r, st1') 
      \<and> run_calls (cache03_wrapper func) cs st1' = (rs', st2') \<longrightarrow>
      fst st1' args = Some r \<and> fst st2' args = Some r
    \<and> length rs' = length cs
    \<and> (\<forall>i < length cs. cs ! i = (args, []) \<longrightarrow> rs' ! i = Inr r))"
proof -
  have one: "fst st1 (cache_key args kwargs) = Some r \<and> fst st2 (cache_key args kwargs) = Some r
    \<and> length rs = length cs
    \<and> (\<forall>i < length cs.
          cache_key (fst (cs ! i)) (snd (cs ! i)) = cache_key args kwargs \<longrightarrow> rs ! i = Inr r)"
    if a: "cache_wrapper func args kwargs st = (Inr r, st1)
      \<and> run_calls (cache_wrapper func) cs st1 = (rs, st2)"
  proof -
  have s: "fst st1 (cache_key args kwargs) = Some r"
    by (rule cache_wrapper_stored [OF conjunct1 [OF a]])
  from cache_calls_consistent [OF s conjunct2 [OF a]]
  show ?thesis
    using s by simp
  qed
  have two: "fst st1' args = Some r \<and> fst st2' args = Some r
    \<and> length rs' = length cs
    \<and> (\<forall>i < length cs. cs ! i = (args, []) \<longrightarrow> rs' ! i = Inr r)"
    if a: "cache03_wrapper func args kwargs st03 = (Inr r, st1') 
      \<and> run_calls (cache03_wrapper func) cs st1' = (rs', st2')"
  proof -
  have s: "fst st1' args = Some r" and h: "py_hashable (PTuple args)"
    using cache03_wrapper_stored [OF conjunct1 [OF a]] by simp_all
  from cache03_calls_consistent [OF s h conjunct2 [OF a]]
  show ?thesis
    using s by simp
  qed
  show ?thesis
    using one two by blast
qed


theorem results_fixed_per_key_witness:
  "cache_wrapper long_running_function [PInt 2, PInt 3] [] (Map.empty, ())
     = (Inr (PInt 5), ([''(2, 3)[]'' \<mapsto> PInt 5], ()))
   \<and> run_calls (cache_wrapper long_running_function)
        [([PInt 1, PInt 1], []), ([PInt 2, PInt 3], [])] ([''(2, 3)[]'' \<mapsto> PInt 5], ())
     = ([Inr (PInt 2), Inr (PInt 5)],
        ([''(2, 3)[]'' \<mapsto> PInt 5, ''(1, 1)[]'' \<mapsto> PInt 2], ()))
   \<and> cache03_wrapper long_running_function [PInt 2, PInt 3] [] (Map.empty, ())
     = (Inr (PInt 5), ([[PInt 2, PInt 3] \<mapsto> PInt 5], ()))
   \<and> run_calls (cache03_wrapper long_running_function)
        [([PInt 1, PInt 1], []), ([PInt 2, PInt 3], [])] ([[PInt 2, PInt 3] \<mapsto> PInt 5], ())
     = ([Inr (PInt 2), Inr (PInt 5)],
        ([[PInt 2, PInt 3] \<mapsto> PInt 5, [PInt 1, PInt 1] \<mapsto> PInt 2], ()))
   \<and> ([''(2, 3)[]'' \<mapsto> PInt 5, ''(1, 1)[]'' \<mapsto> PInt 2]) (cache_key [PInt 2, PInt 3] [])
     = Some (PInt 5)
   \<and> ([[PInt 2, PInt 3] \<mapsto> PInt 5, [PInt 1, PInt 1] \<mapsto> PInt 2]) [PInt 2, PInt 3]
     = Some (PInt 5)"
proof -
  have first: "cache_wrapper long_running_function [PInt 2, PInt 3] [] (Map.empty, ())
     = (Inr (PInt 5), ([''(2, 3)[]'' \<mapsto> PInt 5], ()))"
    by (simp add: eval_defs)
  have rest: "run_calls (cache_wrapper long_running_function)
        [([PInt 1, PInt 1], []), ([PInt 2, PInt 3], [])] ([''(2, 3)[]'' \<mapsto> PInt 5], ())
     = ([Inr (PInt 2), Inr (PInt 5)],
        ([''(2, 3)[]'' \<mapsto> PInt 5, ''(1, 1)[]'' \<mapsto> PInt 2], ()))"
    by (simp add: eval_defs)
  have first03: "cache03_wrapper long_running_function [PInt 2, PInt 3] [] (Map.empty, ())
     = (Inr (PInt 5), ([[PInt 2, PInt 3] \<mapsto> PInt 5], ()))"
    by (simp add: eval_defs)
  have rest03: "run_calls (cache03_wrapper long_running_function)
        [([PInt 1, PInt 1], []), ([PInt 2, PInt 3], [])] ([[PInt 2, PInt 3] \<mapsto> PInt 5], ())
     = ([Inr (PInt 2), Inr (PInt 5)],
        ([[PInt 2, PInt 3] \<mapsto> PInt 5, [PInt 1, PInt 1] \<mapsto> PInt 2], ()))"
    by (simp add: eval_defs)
  show ?thesis
    using results_fixed_per_key [of long_running_function "[PInt 2, PInt 3]" "[]"
        "(Map.empty, ())" "PInt 5" "([''(2, 3)[]'' \<mapsto> PInt 5], ())"
        "[([PInt 1, PInt 1], []), ([PInt 2, PInt 3], [])]" "[Inr (PInt 2), Inr (PInt 5)]"
        "([''(2, 3)[]'' \<mapsto> PInt 5, ''(1, 1)[]'' \<mapsto> PInt 2], ())"
        "(Map.empty, ())" "([[PInt 2, PInt 3] \<mapsto> PInt 5], ())"
        "[Inr (PInt 2), Inr (PInt 5)]"
        "([[PInt 2, PInt 3] \<mapsto> PInt 5, [PInt 1, PInt 1] \<mapsto> PInt 2], ())"]
      first rest first03 rest03
    by simp
qed

text \<open>
  C4. \<^verbatim>\<open>clear_cache\<close> of \<^verbatim>\<open>memoize\<close> empties the cache, and so does clearing the
  mapping that decorator.py exposes as \<^verbatim>\<open>wrapper.cache\<close>. Whatever the cache held, the
  next call is a miss: it invokes the computation (the count goes from \<open>n\<close> to \<open>Suc n\<close>)
  and ends in the state that the same call reaches from a cache that was never filled.
\<close>

theorem clear_restores_miss:
  "fst (clear_cache (cache, (w, n))) = Map.empty
   \<and> (py_hashable (PTuple args) \<longrightarrow>
        memoized_func (counting func) args [] (clear_cache (cache, (w, n)))
          = (case func args [] w of
               (Inl e, w') \<Rightarrow> (Inl e, (Map.empty, (w', Suc n)))
             | (Inr r, w') \<Rightarrow> (Inr r, ([args \<mapsto> r], (w', Suc n))))
      \<and> memoized_func (counting func) args [] (clear_cache (cache, (w, n)))
          = memoized_func (counting func) args [] (Map.empty, (w, n)))
   \<and> cache_wrapper (counting func) args kwargs (dict_clear cache_value, (w, n))
          = (case func args kwargs w of
               (Inl e, w') \<Rightarrow> (Inl e, (Map.empty, (w', Suc n)))
             | (Inr r, w') \<Rightarrow> (Inr r, ([cache_key args kwargs \<mapsto> r], (w', Suc n))))
   \<and> cache_wrapper (counting func) args kwargs (dict_clear cache_value, (w, n))
          = cache_wrapper (counting func) args kwargs (Map.empty, (w, n))"
  by (simp add: memoized_func_def cache_wrapper_def clear_cache_def dict_clear_def counting_def
      split: prod.splits sum.splits)

theorem clear_restores_miss_witness:
  "py_hashable (PTuple [PInt 2, PInt 3])
   \<and> memoized_func (counting long_running_function) [PInt 2, PInt 3] []
        (clear_cache ([[PInt 2, PInt 3] \<mapsto> PInt 5], ((), Suc 0)))
     = (Inr (PInt 5), ([[PInt 2, PInt 3] \<mapsto> PInt 5], ((), Suc (Suc 0))))"
  using clear_restores_miss [of "[[PInt 2, PInt 3] \<mapsto> PInt 5]" "()" "Suc 0"
      "[PInt 2, PInt 3]" long_running_function]
  by (simp add: long_running_function_def bind_args_def)

text \<open>
  C5. The key of decorator.py is a function of the positional values and of the named
  arguments as a mapping: two dictionaries of named arguments with the same names and
  values, whatever their insertion orders, give the same key, so after a call that
  returned \<open>r\<close> a call with the reordered named arguments returns \<open>r\<close> from the cache
  and changes nothing.
\<close>

theorem cache_key_ignores_kwargs_order:
  "distinct (map fst kw1) \<and> distinct (map fst kw2) \<and> map_of kw1 = map_of kw2 \<longrightarrow>
     cache_key args kw1 = cache_key args kw2
   \<and> (cache_wrapper func args kw1 st = (Inr r, st1) \<longrightarrow>
        cache_wrapper func args kw2 st1 = (Inr r, st1))"
  using sort_key_fst_unique [of kw1 kw2] cache_wrapper_stored [of func args kw1 st r st1]
  by (cases st1) (auto simp: cache_key_def sorted_items_def cache_wrapper_def)

theorem cache_key_ignores_kwargs_order_witness:
  "distinct (map fst [(''b'', PInt 3), (''a'', PInt 2)])
   \<and> distinct (map fst [(''a'', PInt 2), (''b'', PInt 3)])
   \<and> map_of [(''b'', PInt 3), (''a'', PInt 2)] = map_of [(''a'', PInt 2), (''b'', PInt 3)]
   \<and> cache_key [] [(''b'', PInt 3), (''a'', PInt 2)]
       = cache_key [] [(''a'', PInt 2), (''b'', PInt 3)]
   \<and> cache_wrapper (counting long_running_function) [] [(''b'', PInt 3), (''a'', PInt 2)]
        (Map.empty, ((), 0))
       = (Inr (PInt 5), ([cache_key [] [(''a'', PInt 2), (''b'', PInt 3)] \<mapsto> PInt 5], ((), Suc 0)))
   \<and> cache_wrapper (counting long_running_function) [] [(''a'', PInt 2), (''b'', PInt 3)]
        ([cache_key [] [(''a'', PInt 2), (''b'', PInt 3)] \<mapsto> PInt 5], ((), Suc 0))
       = (Inr (PInt 5), ([cache_key [] [(''a'', PInt 2), (''b'', PInt 3)] \<mapsto> PInt 5], ((), Suc 0)))"
proof -
  have m: "map_of [(''b'', PInt 3), (''a'', PInt 2)] = map_of [(''a'', PInt 2), (''b'', PInt 3)]"
    by (rule ext) simp
  have d: "distinct (map fst [(''b'', PInt 3), (''a'', PInt 2)])"
    "distinct (map fst [(''a'', PInt 2), (''b'', PInt 3)])"
    by simp_all
  have k: "cache_key [] [(''b'', PInt 3), (''a'', PInt 2)]
       = cache_key [] [(''a'', PInt 2), (''b'', PInt 3)]"
    by (simp add: cache_key_def sorted_items_def)
  have run: "long_running_function [] [(''b'', PInt 3), (''a'', PInt 2)] () = (Inr (PInt 5), ())"
    by (simp add: long_running_function_def bind_args_def)
  have first: "cache_wrapper (counting long_running_function) [] [(''b'', PInt 3), (''a'', PInt 2)]
        (Map.empty, ((), 0))
       = (Inr (PInt 5), ([cache_key [] [(''a'', PInt 2), (''b'', PInt 3)] \<mapsto> PInt 5], ((), Suc 0)))"
    using run k by (simp add: cache_wrapper_def counting_def)
  show ?thesis
    using cache_key_ignores_kwargs_order [of "[(''b'', PInt 3), (''a'', PInt 2)]"
        "[(''a'', PInt 2), (''b'', PInt 3)]" "[]" "counting long_running_function"
        "(Map.empty, ((), 0))" "PInt 5"
        "([cache_key [] [(''a'', PInt 2), (''b'', PInt 3)] \<mapsto> PInt 5], ((), Suc 0))"]
      m d first
    by simp
qed

text \<open>
  C8 (as the code has it). In 03\_decorator.py a call with a positional argument that is
  not hashable raises \<^verbatim>\<open>TypeError\<close> at the lookup \<^verbatim>\<open>args in cache_value\<close>: the
  computation is not invoked, and cache and world are unchanged. In decorator.py the key
  is text, no argument is hashed, and a call with such an argument is a miss or a hit like
  any other: on a miss the computation is invoked and its result stored.
\<close>

theorem unhashable_argument:
  "(\<not> py_hashable (PTuple args) \<longrightarrow>
      cache03_wrapper func args kwargs st = (Inl TypeError, st))
   \<and> (cache_value (cache_key args kwargs) = None \<longrightarrow>
      cache_wrapper func args kwargs (cache_value, w)
        = (case func args kwargs w of
             (Inl e, w') \<Rightarrow> (Inl e, (cache_value, w'))
           | (Inr r, w') \<Rightarrow> (Inr r, (cache_value(cache_key args kwargs \<mapsto> r), w'))))"
  by (cases st) (simp add: cache03_wrapper_def cache_wrapper_def)

theorem unhashable_argument_witness:
  "\<not> py_hashable (PTuple [PList [PInt 1], PList [PInt 2]])
   \<and> cache03_wrapper (counting long_running_function) [PList [PInt 1], PList [PInt 2]] []
        ([[PInt 2, PInt 3] \<mapsto> PInt 5], ((), 0))
     = (Inl TypeError, ([[PInt 2, PInt 3] \<mapsto> PInt 5], ((), 0)))"
  using unhashable_argument [of "[PList [PInt 1], PList [PInt 2]]"
      "counting long_running_function" "[]" "([[PInt 2, PInt 3] \<mapsto> PInt 5], ((), 0))"]
  by simp

theorem unhashable_argument_counterexample:
  "\<not> py_hashable (PTuple [PList [PInt 1], PList [PInt 2]])
   \<and> cache_wrapper (counting long_running_function) [PList [PInt 1], PList [PInt 2]] []
        (Map.empty, ((), 0))
     = (Inr (PList [PInt 1, PInt 2]),
        ([''([1], [2])[]'' \<mapsto> PList [PInt 1, PInt 2]], ((), Suc 0)))
   \<and> [''([1], [2])[]'' \<mapsto> PList [PInt 1, PInt 2]] \<noteq> Map.empty"
  by (simp add: eval_defs)

text \<open>
  C9 (as the code has it). The wrapper of decorator.py takes any positional and named
  arguments and hands them to the computation unchanged: whenever it raises, the cache had
  no entry for the key and the computation raised that exception on the same arguments.
  The wrapper of 03\_decorator.py takes positional arguments only: a call with a named
  argument raises \<^verbatim>\<open>TypeError\<close> and changes nothing, and a call with hashable positional
  arguments raises only what the computation raises on them.
\<close>

theorem wrapper_signature:
  "(fst (cache_wrapper func args kwargs (cache_value, w)) = Inl e \<longrightarrow>
      cache_value (cache_key args kwargs) = None \<and> fst (func args kwargs w) = Inl e)
   \<and> (kwargs \<noteq> [] \<longrightarrow> cache03_wrapper func args kwargs st = (Inl TypeError, st))
   \<and> (py_hashable (PTuple args) \<and> fst (cache03_wrapper func args [] (cache03, w)) = Inl e \<longrightarrow>
      cache03 args = None \<and> fst (func args [] w) = Inl e)"
proof -
  have one: "fst (cache_wrapper func args kwargs (cache_value, w)) = Inl e \<longrightarrow>
      cache_value (cache_key args kwargs) = None \<and> fst (func args kwargs w) = Inl e"
    by (auto simp: cache_wrapper_def Let_def split: option.splits sum.splits prod.splits)
  have two: "kwargs \<noteq> [] \<longrightarrow> cache03_wrapper func args kwargs st = (Inl TypeError, st)"
    by (cases st) (simp add: cache03_wrapper_def)
  have three: "py_hashable (PTuple args)
      \<and> fst (cache03_wrapper func args [] (cache03, w)) = Inl e \<longrightarrow>
      cache03 args = None \<and> fst (func args [] w) = Inl e"
    by (auto simp: cache03_wrapper_def split: option.splits sum.splits prod.splits)
  show ?thesis
    using one two three by blast
qed

theorem wrapper_signature_witness:
  "fst (cache_wrapper long_running_function [PInt 2] [(''c'', PInt 3)] (Map.empty, ()))
     = Inl TypeError
   \<and> fst (long_running_function [PInt 2] [(''c'', PInt 3)] ()) = Inl TypeError
   \<and> [(''a'', PInt 2), (''b'', PInt 3)] \<noteq> []
   \<and> cache03_wrapper long_running_function [] [(''a'', PInt 2), (''b'', PInt 3)] (Map.empty, ())
     = (Inl TypeError, (Map.empty, ()))
   \<and> py_hashable (PTuple [PInt 2])
   \<and> fst (cache03_wrapper long_running_function [PInt 2] [] (Map.empty, ())) = Inl TypeError
   \<and> fst (long_running_function [PInt 2] [] ()) = Inl TypeError"
proof -
  have a: "fst (cache_wrapper long_running_function [PInt 2] [(''c'', PInt 3)] (Map.empty, ()))
     = Inl TypeError"
    by (simp add: eval_defs)
  have b: "fst (cache03_wrapper long_running_function [PInt 2] [] (Map.empty, ())) = Inl TypeError"
    by (simp add: eval_defs)
  show ?thesis
    using wrapper_signature [of long_running_function "[PInt 2]" "[(''c'', PInt 3)]"
        Map.empty "()" TypeError "(Map.empty, ())" Map.empty] a
      wrapper_signature [of long_running_function "[]" "[(''a'', PInt 2), (''b'', PInt 3)]"
        Map.empty "()" TypeError "(Map.empty, ())" Map.empty]
      wrapper_signature [of long_running_function "[PInt 2]" "[]"
        Map.empty "()" TypeError "(Map.empty, ())" Map.empty] b
    by simp
qed

theorem wrapper_signature_counterexample:
  "long_running_function [] [(''a'', PInt 2), (''b'', PInt 3)] () = (Inr (PInt 5), ())
   \<and> cache03_wrapper long_running_function [] [(''a'', PInt 2), (''b'', PInt 3)] (Map.empty, ())
     = (Inl TypeError, (Map.empty, ()))"
  by (simp add: eval_defs)

text \<open>
  C10. Whatever calls of the decorated \<^verbatim>\<open>fibonacci\<close> came before on its cache, a call on
  an integer \<open>n\<close> returns the value of the recurrence without the cache, which is \<open>n\<close>
  for \<open>n \<le> 1\<close> and the sum of the two previous values otherwise; for \<open>0 \<le> n\<close> that is
  the \<open>n\<close>-th Fibonacci number.
\<close>

theorem fibonacci_memoized_correct:
  "fst (fibonacci n (snd (fibonacci_calls ms Map.empty))) = fib_rec n
   \<and> fib_rec n = (if n \<le> 1 then n else fib_rec (n - 1) + fib_rec (n - 2))
   \<and> (0 \<le> n \<longrightarrow> fst (fibonacci n (snd (fibonacci_calls ms Map.empty))) = int (fib_nat (nat n)))"
proof -
  have e: "fib_cache_ok Map.empty" by (simp add: fib_cache_ok_def)
  have ok: "fib_cache_ok (snd (fibonacci_calls ms Map.empty))"
    using fibonacci_calls_ok [OF e] by simp
  have one: "fst (fibonacci n (snd (fibonacci_calls ms Map.empty))) = fib_rec n"
    using fibonacci_refines(1) ok by simp
  have two: "fib_rec n = (if n \<le> 1 then n else fib_rec (n - 1) + fib_rec (n - 2))"
    by (subst fib_rec.simps) simp
  have three: "0 \<le> n \<longrightarrow> fib_rec n = int (fib_nat (nat n))"
    using fib_rec_nat [of "nat n"] by auto
  show ?thesis using one two three by simp
qed

theorem fibonacci_memoized_correct_witness:
  "(0::int) \<le> 4 \<and> fst (fibonacci 4 (snd (fibonacci_calls [3] Map.empty))) = 3
   \<and> fibonacci 3 Map.empty = (2, [''(1,)[]'' \<mapsto> 1, ''(0,)[]'' \<mapsto> 0, ''(2,)[]'' \<mapsto> 1, ''(3,)[]'' \<mapsto> 2])"
proof -
  have f: "int (fib_nat (nat 4)) = 3"
    by (simp add: eval_nat_numeral)
  have g: "fibonacci 3 Map.empty = (2, [''(1,)[]'' \<mapsto> 1, ''(0,)[]'' \<mapsto> 0, ''(2,)[]'' \<mapsto> 1, ''(3,)[]'' \<mapsto> 2])"
    by (simp add: fib_eval)
  show ?thesis
    using fibonacci_memoized_correct [of 4 "[3]"] f g by simp
qed

text \<open>
  C6 (as the code has it). In 03\_decorator.py a call with positional arguments \<open>a\<close>
  leaves the entry of any other tuple \<open>b\<close> as it was, so a following call with \<open>b\<close>
  returns what it would have returned, and invokes the computation exactly when it would
  have, had the call with \<open>a\<close> not been made. In decorator.py the same holds for
  arguments \<open>b\<close> whose key text differs from that of \<open>a\<close>; distinct arguments built from
  \<^verbatim>\<open>None\<close>, integers, strings, tuples and lists always have different key texts, while
  arguments with the same key text share one entry: after a call with \<open>a\<close> that returned
  \<open>r\<close>, a call with such \<open>b\<close> returns \<open>r\<close> from the cache.
\<close>

theorem distinct_arguments_independent:
  "(cache_key a kwa \<noteq> cache_key b kwb \<longrightarrow>
      fst (snd (cache_wrapper func a kwa (cache_value, w))) (cache_key b kwb)
        = cache_value (cache_key b kwb)
    \<and> fst (cache_wrapper (counting func) b kwb
             (fst (snd (cache_wrapper func a kwa (cache_value, w))), wn))
        = fst (cache_wrapper (counting func) b kwb (cache_value, wn))
    \<and> snd (snd (cache_wrapper (counting func) b kwb
             (fst (snd (cache_wrapper func a kwa (cache_value, w))), wn)))
        = snd (snd (cache_wrapper (counting func) b kwb (cache_value, wn))))
   \<and> (distinct (map fst kwa) \<and> distinct (map fst kwb) \<and> plain_call a kwa \<and> plain_call b kwb
      \<and> (a \<noteq> b \<or> map_of kwa \<noteq> map_of kwb) \<longrightarrow>
      cache_key a kwa \<noteq> cache_key b kwb)
   \<and> (cache_key a kwa = cache_key b kwb
      \<and> cache_wrapper func a kwa (cache_value, w) = (Inr r, st1) \<longrightarrow>
      cache_wrapper (counting func) b kwb (fst st1, wn) = (Inr r, (fst st1, wn)))
   \<and> (a \<noteq> b \<longrightarrow>
      fst (snd (cache03_wrapper func a [] (cache03, w))) b = cache03 b
    \<and> fst (cache03_wrapper (counting func) b []
             (fst (snd (cache03_wrapper func a [] (cache03, w))), wn))
        = fst (cache03_wrapper (counting func) b [] (cache03, wn))
    \<and> snd (snd (cache03_wrapper (counting func) b []
             (fst (snd (cache03_wrapper func a [] (cache03, w))), wn)))
        = snd (snd (cache03_wrapper (counting func) b [] (cache03, wn))))"
proof -
  have one: "fst (snd (cache_wrapper func a kwa (cache_value, w))) (cache_key b kwb)
        = cache_value (cache_key b kwb)
    \<and> fst (cache_wrapper (counting func) b kwb
             (fst (snd (cache_wrapper func a kwa (cache_value, w))), wn))
        = fst (cache_wrapper (counting func) b kwb (cache_value, wn))
    \<and> snd (snd (cache_wrapper (counting func) b kwb
             (fst (snd (cache_wrapper func a kwa (cache_value, w))), wn)))
        = snd (snd (cache_wrapper (counting func) b kwb (cache_value, wn)))"
    if k: "cache_key a kwa \<noteq> cache_key b kwb"
  proof -
    have l: "fst (snd (cache_wrapper func a kwa (cache_value, w))) (cache_key b kwb)
        = cache_value (cache_key b kwb)"
      using k cache_wrapper_frame [of "cache_key b kwb" a kwa func cache_value w] by simp
    show ?thesis
      using l cache_wrapper_lookup_only [of "fst (snd (cache_wrapper func a kwa (cache_value, w)))"
          b kwb cache_value "counting func" wn] by simp
  qed
  have two: "cache_key a kwa \<noteq> cache_key b kwb"
    if h: "distinct (map fst kwa) \<and> distinct (map fst kwb) \<and> plain_call a kwa \<and> plain_call b kwb
      \<and> (a \<noteq> b \<or> map_of kwa \<noteq> map_of kwb)"
    using h cache_key_inj [of kwa kwb a b] by blast
  have three: "cache_wrapper (counting func) b kwb (fst st1, wn) = (Inr r, (fst st1, wn))"
    if h: "cache_key a kwa = cache_key b kwb
      \<and> cache_wrapper func a kwa (cache_value, w) = (Inr r, st1)"
  proof -
    have "fst st1 (cache_key b kwb) = Some r"
      using cache_wrapper_stored [of func a kwa "(cache_value, w)" r st1] h by simp
    then show ?thesis
      by (simp add: cache_wrapper_def)
  qed
  have four: "fst (snd (cache03_wrapper func a [] (cache03, w))) b = cache03 b
    \<and> fst (cache03_wrapper (counting func) b []
             (fst (snd (cache03_wrapper func a [] (cache03, w))), wn))
        = fst (cache03_wrapper (counting func) b [] (cache03, wn))
    \<and> snd (snd (cache03_wrapper (counting func) b []
             (fst (snd (cache03_wrapper func a [] (cache03, w))), wn)))
        = snd (snd (cache03_wrapper (counting func) b [] (cache03, wn)))"
    if h: "a \<noteq> b"
  proof -
    have l: "fst (snd (cache03_wrapper func a [] (cache03, w))) b = cache03 b"
      using h cache03_wrapper_frame [of b a func "[]" cache03 w] by simp
    show ?thesis
      using l cache03_wrapper_lookup_only [of "fst (snd (cache03_wrapper func a [] (cache03, w)))"
          b cache03 "counting func" "[]" wn] by simp
  qed
  show ?thesis
    using one two three four by blast
qed

theorem distinct_arguments_independent_witness:
  "cache_key [PInt 2, PInt 3] [] \<noteq> cache_key [PInt 1, PInt 1] []
   \<and> distinct (map fst ([] :: kwargs)) \<and> plain_call [PInt 2, PInt 3] []
   \<and> plain_call [PInt 1, PInt 1] [] \<and> [PInt 2, PInt 3] \<noteq> [PInt 1, PInt 1]
   \<and> fst (snd (cache_wrapper long_running_function [PInt 2, PInt 3] [] (Map.empty, ())))
        (cache_key [PInt 1, PInt 1] []) = None
   \<and> fst (snd (cache03_wrapper long_running_function [PInt 2, PInt 3] [] (Map.empty, ())))
        [PInt 1, PInt 1] = None
   \<and> cache_key [PInt 2, PInt 3] [] = cache_key [PInt 2, PInt 3] []
   \<and> cache_wrapper long_running_function [PInt 2, PInt 3] [] (Map.empty, ())
       = (Inr (PInt 5), ([''(2, 3)[]'' \<mapsto> PInt 5], ()))
   \<and> cache_wrapper (counting long_running_function) [PInt 2, PInt 3] []
        ([''(2, 3)[]'' \<mapsto> PInt 5], ((), 0))
       = (Inr (PInt 5), ([''(2, 3)[]'' \<mapsto> PInt 5], ((), 0)))"
proof -
  have p: "plain_call [PInt 2, PInt 3] []" "plain_call [PInt 1, PInt 1] []"
    by (simp_all add: plain_call_def)
  have first: "cache_wrapper long_running_function [PInt 2, PInt 3] [] (Map.empty, ())
       = (Inr (PInt 5), ([''(2, 3)[]'' \<mapsto> PInt 5], ()))"
    by (simp add: eval_defs)
  show ?thesis
    using distinct_arguments_independent [where kwa = "[]" and kwb = "[]"
        and a = "[PInt 2, PInt 3]" and b = "[PInt 1, PInt 1]" and func = long_running_function
        and cache_value = Map.empty and w = "()" and wn = "((), 0)" and ?cache03.0 = Map.empty]
      distinct_arguments_independent [where kwa = "[]" and kwb = "[]"
        and a = "[PInt 2, PInt 3]" and b = "[PInt 2, PInt 3]" and func = long_running_function
        and cache_value = Map.empty and w = "()" and wn = "((), 0)" and r = "PInt 5"
        and ?st1.0 = "([''(2, 3)[]'' \<mapsto> PInt 5], ())"]
      p first
    by simp
qed

theorem distinct_arguments_independent_counterexample:
  "[PObj 1 ''User(ann)''] \<noteq> [PObj 2 ''User(ann)'']
   \<and> py_hashable (PTuple [PObj 1 ''User(ann)'']) \<and> py_hashable (PTuple [PObj 2 ''User(ann)''])
   \<and> cache_wrapper (counting process_large_file) [PObj 1 ''User(ann)''] [] (Map.empty, ((), 0))
       = (Inr (PStr ''Processed User(ann) with read operation''),
          ([''(User(ann),)[]'' \<mapsto> PStr ''Processed User(ann) with read operation''],
           ((), Suc 0)))
   \<and> cache_wrapper (counting process_large_file) [PObj 2 ''User(ann)''] []
        ([''(User(ann),)[]'' \<mapsto> PStr ''Processed User(ann) with read operation''],
         ((), Suc 0))
       = (Inr (PStr ''Processed User(ann) with read operation''),
          ([''(User(ann),)[]'' \<mapsto> PStr ''Processed User(ann) with read operation''],
           ((), Suc 0)))
   \<and> cache_wrapper (counting process_large_file) [PObj 2 ''User(ann)''] []
        (Map.empty, ((), Suc 0))
       = (Inr (PStr ''Processed User(ann) with read operation''),
          ([''(User(ann),)[]'' \<mapsto> PStr ''Processed User(ann) with read operation''],
           ((), Suc (Suc 0))))"
  by (simp add: eval_defs process_large_file_def)

end
